theory Spec2Isabelle
  imports Main "HOL-Library.Char_ord" "HOL-Library.List_Lexorder"
begin

section \<open>Strings as the scripts use them\<close>

text \<open>
  The scripts of the accessibility-report note work on JavaScript strings. A string is
  modelled as a \<^typ>\<open>string\<close>; the only non-ASCII text of the scripts (the cross mark
  of the report heading) is kept as its three UTF-8 bytes.
\<close>

definition newline :: string where
  "newline = [CHR 10]"

definition cross_mark :: string where
  "cross_mark = [CHR 0xE2, CHR 0x9D, CHR 0x8C]"

text \<open>\<^verbatim>\<open>xs.join(sep)\<close> of JavaScript.\<close>

fun join :: "string \<Rightarrow> string list \<Rightarrow> string" where
  "join sep [] = []"
| "join sep [x] = x"
| "join sep (x # y # ys) = x @ sep @ join sep (y # ys)"

text \<open>\<^verbatim>\<open>s.startsWith(p)\<close> and \<^verbatim>\<open>s.includes(p)\<close>.\<close>

fun startsWith :: "string \<Rightarrow> string \<Rightarrow> bool" where
  "startsWith s [] = True"
| "startsWith [] (p # ps) = False"
| "startsWith (c # cs) (p # ps) = (c = p \<and> startsWith cs ps)"

fun includes_str :: "string \<Rightarrow> string \<Rightarrow> bool" where
  "includes_str [] p = (p = [])"
| "includes_str (c # cs) p = (startsWith (c # cs) p \<or> includes_str cs p)"

text \<open>
  \<^verbatim>\<open>s.replace(/\//g, r)\<close>: every slash is replaced by \<open>r\<close>.
  \<^verbatim>\<open>s.replace(/^-/, '')\<close>: one dash at the very start is removed, if there is one.
  \<^verbatim>\<open>s.replace(p, r)\<close> with a string pattern: the first occurrence of \<open>p\<close> is replaced.
\<close>

fun replace_slashes :: "string \<Rightarrow> string \<Rightarrow> string" where
  "replace_slashes [] r = []"
| "replace_slashes (c # cs) r =
     (if c = CHR ''/'' then r @ replace_slashes cs r else c # replace_slashes cs r)"

fun remove_leading_dash :: "string \<Rightarrow> string" where
  "remove_leading_dash [] = []"
| "remove_leading_dash (c # cs) = (if c = CHR ''-'' then cs else c # cs)"

fun replace_first :: "string \<Rightarrow> string \<Rightarrow> string \<Rightarrow> string" where
  "replace_first [] p r = (if p = [] then r else [])"
| "replace_first (c # cs) p r =
     (if startsWith (c # cs) p then r @ drop (length p) (c # cs)
      else c # replace_first cs p r)"

section \<open>Generate a report: \<open>formatViolationsToMarkdown\<close>\<close>

text \<open>
  A violation as axe reports it and as the formatter reads it: \<open>v.id\<close>, \<open>v.impact\<close>,
  \<open>v.description\<close>, \<open>v.help\<close> (here \<open>help_text\<close>), \<open>v.helpUrl\<close> and \<open>v.nodes\<close>, each node with its
  \<open>html\<close> snippet.
\<close>

record node =
  html :: string

record violation =
  vid :: string
  impact :: string
  description :: string
  help_text :: string
  helpUrl :: string
  nodes :: "node list"

definition header :: "string \<Rightarrow> string" where
  "header url = ''## Accessibility Violations on `'' @ url @ ''`'' @ newline @ newline"

definition format_node :: "node \<Rightarrow> string" where
  "format_node n = ''  - `'' @ html n @ ''`''"

definition format_violation :: "violation \<Rightarrow> string" where
  "format_violation v =
     newline @ ''### '' @ cross_mark @ '' '' @ vid v @ newline @
     ''- Impact: `'' @ impact v @ ''`'' @ newline @
     ''- Description: '' @ description v @ newline @
     ''- Help: ['' @ help_text v @ '']('' @ helpUrl v @ '')'' @ newline @
     ''- Affected Elements:'' @ newline @
     join newline (map format_node (nodes v)) @ newline @
     ''  ''"

definition formatViolationsToMarkdown :: "string \<Rightarrow> violation list \<Rightarrow> string" where
  "formatViolationsToMarkdown url violations =
     (if length violations = 0 then header url @ ''_No violations found._''
      else header url @ join newline (map format_violation violations))"

section \<open>Save the report: \<open>safeName\<close> and the report file\<close>

definition safeName :: "string \<Rightarrow> string" where
  "safeName url =
     (if url = ''/'' then ''home''
      else remove_leading_dash (replace_slashes url ''-''))"

definition report_file :: "string \<Rightarrow> string" where
  "report_file url = ''a11y-'' @ safeName url @ ''.md''"

definition report_path :: "string \<Rightarrow> string" where
  "report_path url = ''reports/'' @ report_file url"

text \<open>
  The slug as the specification words it: the root path is the reserved key \<open>home\<close>;
  any other path has each slash replaced by a dash, and a dash that then leads the
  string is stripped.
\<close>

definition slash_to_dash :: "char \<Rightarrow> char" where
  "slash_to_dash c = (if c = CHR ''/'' then CHR ''-'' else c)"

definition spec_slug :: "string \<Rightarrow> string" where
  "spec_slug path =
     (if path = ''/'' then ''home''
      else (case map slash_to_dash path of
              [] \<Rightarrow> []
            | c # cs \<Rightarrow> if c = CHR ''-'' then cs else c # cs))"

section \<open>The crawl: \<open>spider\<close>\<close>

text \<open>
  The site under test and the browser are the environment of the script. A page of the
  site is described by what the Cypress commands of \<open>spider\<close> do on it: one of the
  four commands \<open>cy.visit\<close>, \<open>cy.injectAxe\<close>, \<open>cy.checkA11y\<close>,
  \<open>cy.get('a[href^="/"]')\<close> fails (a navigation error, a timeout, a failed
  accessibility assertion, no anchor that matches), or all four succeed and
  \<open>cy.get\<close> yields the anchors, of which the script reads the \<open>href\<close>
  attributes in document order. A failed command fails the test, and no later command
  of the test runs.
\<close>

datatype command = Visit | InjectAxe | CheckA11y | GetLinks

datatype page = Fails command | Loaded "string list"

text \<open>
  The world of a run: \<open>Cypress.config().baseUrl\<close>, the URL constructor of the
  platform (\<open>newURL w href base\<close> is \<open>new URL(href, base).toString()\<close>, and
  \<open>None\<close> when the constructor throws its \<open>TypeError\<close>), and the pages the
  site serves, by absolute URL. The site is a finite table; a URL it does not list is
  not served, and \<open>cy.visit\<close> fails on it.
\<close>

record world =
  baseUrl :: string
  newURL :: "string \<Rightarrow> string \<Rightarrow> string option"
  site :: "(string \<times> page) list"

definition page_of :: "world \<Rightarrow> string \<Rightarrow> page" where
  "page_of w url = (case map_of (site w) url of None \<Rightarrow> Fails Visit | Some p \<Rightarrow> p)"

text \<open>
  The state of a run is the module-level \<open>visited\<close> set (a JavaScript \<open>Set\<close>: its
  elements in insertion order, \<open>add\<close> of a present element changes nothing) and the
  trace of what the script did: each call of \<open>spider\<close>, each \<open>visited.add\<close> and
  each Cypress command, in the order they happen.
\<close>

datatype event = Call string int | Add string | Cmd command string

record crawl_state =
  visited :: "string list"
  trace :: "event list"

definition empty_state :: crawl_state where
  "empty_state = \<lparr>visited = [], trace = []\<rparr>"

definition set_add :: "'a \<Rightarrow> 'a list \<Rightarrow> 'a list" where
  "set_add x s = (if x \<in> set s then s else s @ [x])"

definition new_Set :: "'a list \<Rightarrow> 'a list" where
  "new_Set xs = fold set_add xs []"

definition log_event :: "event \<Rightarrow> crawl_state \<Rightarrow> crawl_state" where
  "log_event e st = st\<lparr>trace := trace st @ [e]\<rparr>"

text \<open>
  Nothing in the script catches an exception, and a failed Cypress command fails the
  test: a run either completes or is aborted by the first failure.
\<close>

datatype failure = CommandFailed command string | InvalidURL string

datatype outcome = Done crawl_state | Aborted failure crawl_state

fun final :: "outcome \<Rightarrow> crawl_state" where
  "final (Done st) = st"
| "final (Aborted e st) = st"

fun failure_of :: "outcome \<Rightarrow> failure option" where
  "failure_of (Done st) = None"
| "failure_of (Aborted e st) = Some e"

text \<open>The commands that run on a page when command \<open>c\<close> is the one that fails.\<close>

fun commands_upto :: "command \<Rightarrow> command list" where
  "commands_upto Visit = [Visit]"
| "commands_upto InjectAxe = [Visit, InjectAxe]"
| "commands_upto CheckA11y = [Visit, InjectAxe, CheckA11y]"
| "commands_upto GetLinks = [Visit, InjectAxe, CheckA11y, GetLinks]"

definition run_commands :: "command list \<Rightarrow> string \<Rightarrow> crawl_state \<Rightarrow> crawl_state" where
  "run_commands cs url st = st\<lparr>trace := trace st @ map (\<lambda>c. Cmd c url) cs\<rparr>"

text \<open>
  The predicate of the link filter. The conjunction is evaluated left to right and
  stops at the first false conjunct, so the URL constructor is reached only by an href
  that passed the three string tests; \<open>typeof href === 'string'\<close> holds of every
  attribute the selector matched. \<open>None\<close>: the constructor threw.
\<close>

definition keep_href :: "world \<Rightarrow> string list \<Rightarrow> string \<Rightarrow> bool option" where
  "keep_href w vis href =
     (if startsWith href ''#'' then Some False
      else if includes_str href ''logout'' then Some False
      else if includes_str href ''mailto:'' then Some False
      else (case newURL w href (baseUrl w) of
              None \<Rightarrow> None
            | Some absolute \<Rightarrow> Some (absolute \<notin> set vis)))"

fun filter_hrefs :: "world \<Rightarrow> string list \<Rightarrow> string list \<Rightarrow> failure + string list" where
  "filter_hrefs w vis [] = Inr []"
| "filter_hrefs w vis (href # rest) =
     (case keep_href w vis href of
        None \<Rightarrow> Inl (InvalidURL href)
      | Some keep \<Rightarrow>
          (case filter_hrefs w vis rest of
             Inl e \<Rightarrow> Inl e
           | Inr kept \<Rightarrow> Inr (if keep then href # kept else kept)))"

text \<open>
  The body of \<open>spider\<close> between \<open>visited.add(url)\<close> and the loop over the links:
  the four commands on the page, then the callback that computes \<open>hrefs\<close>.
\<close>

definition audit_page ::
  "world \<Rightarrow> string \<Rightarrow> crawl_state \<Rightarrow> (failure \<times> crawl_state) + (string list \<times> crawl_state)" where
  "audit_page w url st =
     (case page_of w url of
        Fails c \<Rightarrow> Inl (CommandFailed c url, run_commands (commands_upto c) url st)
      | Loaded anchors \<Rightarrow>
          (let st' = run_commands [Visit, InjectAxe, CheckA11y, GetLinks] url st in
           case filter_hrefs w (visited st') anchors of
             Inl e \<Rightarrow> Inl (e, st')
           | Inr kept \<Rightarrow> Inr (new_Set kept, st')))"

text \<open>
  \<open>spider\<close> and the loop \<open>cy.wrap(hrefs).each(...)\<close> in its callback. Cypress runs
  the commands a callback enqueues before the commands that follow the callback, so
  the call \<open>spider(absolute, depth - 1)\<close> of one link, with all the commands it
  enqueues, is over before the next link is taken.
\<close>

function spider :: "world \<Rightarrow> string \<Rightarrow> int \<Rightarrow> crawl_state \<Rightarrow> outcome"
  and each_href :: "world \<Rightarrow> string list \<Rightarrow> int \<Rightarrow> crawl_state \<Rightarrow> outcome"
where
  "spider w url depth st =
     (if url \<in> set (visited st) \<or> depth = 0 then Done (log_event (Call url depth) st)
      else
        (case audit_page w url
                (log_event (Add url)
                   ((log_event (Call url depth) st)\<lparr>visited := set_add url (visited st)\<rparr>)) of
           Inl (e, st') \<Rightarrow> Aborted e st'
         | Inr (hrefs, st') \<Rightarrow> each_href w hrefs depth st'))"
| "each_href w [] depth st = Done st"
| "each_href w (href # hrefs) depth st =
     (case newURL w href (baseUrl w) of
        None \<Rightarrow> Aborted (InvalidURL href) st
      | Some absolute \<Rightarrow>
          (case spider w absolute (depth - 1) st of
             Aborted e st' \<Rightarrow> Aborted e st'
           | Done st' \<Rightarrow> each_href w hrefs depth st'))"
  by pat_completeness auto

subsection \<open>The recursion of \<open>spider\<close> is well-founded\<close>

text \<open>
  The absolute URLs the links of the site resolve to are finitely many. A call of
  \<open>spider\<close> that passes its guard removes one of them (or the seed) from those not
  yet visited, and the loop over the links never adds one.
\<close>

fun anchors :: "page \<Rightarrow> string list" where
  "anchors (Loaded hs) = hs"
| "anchors (Fails c) = []"

definition resolved :: "world \<Rightarrow> string list \<Rightarrow> string set" where
  "resolved w hs = set (List.map_filter (\<lambda>h. newURL w h (baseUrl w)) hs)"

definition link_targets :: "world \<Rightarrow> string set" where
  "link_targets w = resolved w (concat (map (\<lambda>(u, p). anchors p) (site w)))"

definition crawl_measure ::
  "(world \<times> string \<times> int \<times> crawl_state) + (world \<times> string list \<times> int \<times> crawl_state)
     \<Rightarrow> nat \<times> nat" where
  "crawl_measure x =
     (case x of
        Inl (w, url, depth, st) \<Rightarrow>
          (card (insert url (link_targets w) - set (visited st)), 0)
      | Inr (w, hrefs, depth, st) \<Rightarrow>
          (card ((link_targets w \<union> resolved w hrefs) - set (visited st)), Suc (length hrefs)))"

lemma resolved_iff: "a \<in> resolved w hs \<longleftrightarrow> (\<exists>h \<in> set hs. newURL w h (baseUrl w) = Some a)"
  by (induction hs) (auto simp: resolved_def map_filter_simps split: option.splits)

lemma finite_resolved: "finite (resolved w hs)"
  by (simp add: resolved_def)

lemma finite_link_targets: "finite (link_targets w)"
  by (simp add: link_targets_def finite_resolved)

lemma resolved_mono: "set hs \<subseteq> set hs' \<Longrightarrow> resolved w hs \<subseteq> resolved w hs'"
  unfolding resolved_iff subset_iff by blast

lemma set_fold_set_add: "set (fold set_add xs acc) = set acc \<union> set xs"
  by (induction xs arbitrary: acc) (auto simp: set_add_def)

lemma set_new_Set: "set (new_Set xs) = set xs"
  by (simp add: new_Set_def set_fold_set_add)

lemma set_set_add: "set (set_add x s) = insert x (set s)"
  by (auto simp: set_add_def)

lemma filter_hrefs_subset: "filter_hrefs w vis hs = Inr kept \<Longrightarrow> set kept \<subseteq> set hs"
  by (induction hs arbitrary: kept) (auto split: option.splits sum.splits if_splits)

lemma page_anchors_targets:
  assumes "page_of w url = Loaded hs"
  shows "resolved w hs \<subseteq> link_targets w"
proof -
  from assms have "(url, Loaded hs) \<in> set (site w)"
    by (auto simp: page_of_def split: option.splits dest: map_of_SomeD)
  then have "set hs \<subseteq> set (concat (map (\<lambda>(u, p). anchors p) (site w)))"
    by force
  then show ?thesis
    unfolding link_targets_def by (rule resolved_mono)
qed

lemma visited_run_commands [simp]: "visited (run_commands cs url st) = visited st"
  by (simp add: run_commands_def)

lemma visited_log_event [simp]: "visited (log_event e st) = visited st"
  by (simp add: log_event_def)

lemma audit_page_Inr:
  assumes "audit_page w url st = Inr (hrefs, st')"
  shows "resolved w hrefs \<subseteq> link_targets w" and "visited st' = visited st"
proof -
  from assms obtain hs kept where p: "page_of w url = Loaded hs"
    and k: "filter_hrefs w (visited st) hs = Inr kept" and h: "hrefs = new_Set kept"
    and s: "st' = run_commands [Visit, InjectAxe, CheckA11y, GetLinks] url st"
    by (auto simp: audit_page_def Let_def split: page.splits sum.splits)
  have "resolved w hrefs \<subseteq> resolved w hs"
    using filter_hrefs_subset [OF k] by (intro resolved_mono) (simp add: h set_new_Set)
  with page_anchors_targets [OF p] show "resolved w hrefs \<subseteq> link_targets w" by blast
  show "visited st' = visited st" by (simp add: s)
qed

lemma visited_grows_dom:
  "spider_each_href_dom (Inl (w, url, depth, st)) \<Longrightarrow>
     spider w url depth st = Done st' \<Longrightarrow> set (visited st) \<subseteq> set (visited st')"
  "spider_each_href_dom (Inr (w, hrefs, depth, st)) \<Longrightarrow>
     each_href w hrefs depth st = Done st' \<Longrightarrow> set (visited st) \<subseteq> set (visited st')"
proof (induction w url depth st and w hrefs depth st arbitrary: st' and st'
    rule: spider_each_href.pinduct)
  case (1 w url depth st)
  show ?case
  proof (cases "url \<in> set (visited st) \<or> depth = 0")
    case True
    with "1.prems" "1.hyps" show ?thesis by (auto simp: spider.psimps)
  next
    case False
    let ?s = "log_event (Add url) ((log_event (Call url depth) st)\<lparr>visited := set_add url (visited st)\<rparr>)"
    from False "1.prems" "1.hyps" obtain hrefs s1 where
      a: "audit_page w url ?s = Inr (hrefs, s1)" and e: "each_href w hrefs depth s1 = Done st'"
      by (auto simp: spider.psimps split: sum.splits prod.splits)
    from "1.IH" [OF False a refl e] have "set (visited s1) \<subseteq> set (visited st')" .
    moreover have "visited s1 = set_add url (visited st)"
      using audit_page_Inr(2) [OF a] by simp
    ultimately show ?thesis by (auto simp: set_set_add)
  qed
next
  case (2 w depth st)
  then show ?case by (simp add: each_href.psimps)
next
  case (3 w href hrefs depth st)
  from "3.prems" "3.hyps" obtain a s1 where
    n: "newURL w href (baseUrl w) = Some a" and s: "spider w a (depth - 1) st = Done s1"
    and e: "each_href w hrefs depth s1 = Done st'"
    by (auto simp: each_href.psimps split: option.splits outcome.splits)
  from "3.IH"(1) [OF n s] "3.IH"(2) [OF n s e] show ?case by blast
qed

lemma all_dom: "spider_each_href_dom x"
proof -
  have "All spider_each_href_dom"
  proof (rule "spider_each_href.termination"
      [where R = "inv_image (less_than <*lex*> less_than) crawl_measure"], goal_cases)
    case 1
    show ?case by (intro wf_inv_image wf_lex_prod wf_less_than)
  next
    case (2 w url depth st b hrefs st')
    then have a: "audit_page w url
        (log_event (Add url) ((log_event (Call url depth) st)\<lparr>visited := set_add url (visited st)\<rparr>))
        = Inr (hrefs, st')" and nv: "url \<notin> set (visited st)"
      by auto
    have v: "set (visited st') = insert url (set (visited st))"
      using audit_page_Inr(2) [OF a] by (simp add: set_set_add)
    have "(link_targets w \<union> resolved w hrefs) - set (visited st')
        \<subset> insert url (link_targets w) - set (visited st)"
      using audit_page_Inr(1) [OF a] nv v by auto
    then have "card ((link_targets w \<union> resolved w hrefs) - set (visited st'))
        < card (insert url (link_targets w) - set (visited st))"
      by (intro psubset_card_mono) (simp_all add: finite_link_targets)
    then show ?case by (simp add: crawl_measure_def)
  next
    case (3 w href hrefs depth st a)
    then have "a \<in> resolved w (href # hrefs)"
      by (auto simp: resolved_iff)
    then have "insert a (link_targets w) - set (visited st)
        \<subseteq> (link_targets w \<union> resolved w (href # hrefs)) - set (visited st)"
      by auto
    then have "card (insert a (link_targets w) - set (visited st))
        \<le> card ((link_targets w \<union> resolved w (href # hrefs)) - set (visited st))"
      by (intro card_mono) (simp_all add: finite_link_targets finite_resolved)
    then show ?case by (auto simp: crawl_measure_def)
  next
    case (4 w href hrefs depth st a st')
    have "set (visited st) \<subseteq> set (visited st')"
      using visited_grows_dom(1) [OF "4"(3) "4"(2)] .
    moreover have "resolved w hrefs \<subseteq> resolved w (href # hrefs)"
      by (intro resolved_mono) auto
    ultimately have "(link_targets w \<union> resolved w hrefs) - set (visited st')
        \<subseteq> (link_targets w \<union> resolved w (href # hrefs)) - set (visited st)"
      by auto
    then have "card ((link_targets w \<union> resolved w hrefs) - set (visited st'))
        \<le> card ((link_targets w \<union> resolved w (href # hrefs)) - set (visited st))"
      by (intro card_mono) (simp_all add: finite_link_targets finite_resolved)
    then show ?case by (auto simp: crawl_measure_def)
  qed
  then show ?thesis by blast
qed

termination spider
  using all_dom by blast

declare spider.simps [simp del]

definition crawl_depth :: "world \<Rightarrow> int \<Rightarrow> outcome" where
  "crawl_depth w depth = spider w (baseUrl w @ ''/'') depth empty_state"

text \<open>The test of the script: \<open>spider(`${Cypress.config().baseUrl}/`, 2)\<close>.\<close>

definition crawl :: "world \<Rightarrow> outcome" where
  "crawl w = crawl_depth w 2"

subsection \<open>Reading a trace\<close>

text \<open>The URLs on which command \<open>c\<close> ran, in the order it ran on them.\<close>

fun urls_of :: "command \<Rightarrow> event list \<Rightarrow> string list" where
  "urls_of c [] = []"
| "urls_of c (Cmd c' url # t) = (if c' = c then url # urls_of c t else urls_of c t)"
| "urls_of c (Call url depth # t) = urls_of c t"
| "urls_of c (Add url # t) = urls_of c t"

text \<open>
  The invariant of a run: \<open>visited\<close> holds no URL twice, and no command ran twice on
  a URL nor on a URL that is not in \<open>visited\<close>.
\<close>

definition once :: "crawl_state \<Rightarrow> bool" where
  "once st \<longleftrightarrow> distinct (visited st) \<and>
     (\<forall>c. distinct (urls_of c (trace st)) \<and> set (urls_of c (trace st)) \<subseteq> set (visited st))"

text \<open>
  \<open>added_first seen t\<close>: in the trace \<open>t\<close>, every command on a URL comes after
  a \<open>visited.add\<close> of that URL, or the URL is in \<open>seen\<close>. \<open>added t\<close>: the
  URLs added in \<open>t\<close>. \<open>calls t\<close>: the calls of \<open>spider\<close> in \<open>t\<close>, each
  with its URL and its depth, in order.
\<close>

fun added_first :: "string set \<Rightarrow> event list \<Rightarrow> bool" where
  "added_first seen [] = True"
| "added_first seen (Add url # t) = added_first (insert url seen) t"
| "added_first seen (Cmd c url # t) = (url \<in> seen \<and> added_first seen t)"
| "added_first seen (Call url depth # t) = added_first seen t"

fun added :: "event list \<Rightarrow> string set" where
  "added [] = {}"
| "added (Add url # t) = insert url (added t)"
| "added (Cmd c url # t) = added t"
| "added (Call url depth # t) = added t"


text \<open>
  A run that started in state \<open>st\<close> stops at a failure: if a command ran on a page on
  which that command fails, the run is aborted with that failure, and that command is the
  last event of the run.
\<close>

definition stops_at_failure :: "world \<Rightarrow> crawl_state \<Rightarrow> outcome \<Rightarrow> bool" where
  "stops_at_failure w st out \<longleftrightarrow>
     (\<forall>new c u. trace (final out) = trace st @ new \<longrightarrow> Cmd c u \<in> set new \<longrightarrow>
        page_of w u = Fails c \<longrightarrow>
        out = Aborted (CommandFailed c u) (final out) \<and> last new = Cmd c u)"

subsection \<open>The crawl over an explicit frontier\<close>

text \<open>
  The Frontier as the specification words it; the script has no such queue, and the
  loop below is what the run of \<open>spider\<close> is compared with. The pending crawl
  tasks are held in a list; the loop takes the first pending
  task, applies to it the guard and the page audit of \<open>spider\<close>, and enqueues the
  links found at depth \<open>depth - 1\<close>, until no task is pending. With the discipline
  \<open>Fifo\<close> the links found go behind the pending tasks (the queue of the
  specification: tasks leave in the order of their discovery); with \<open>Lifo\<close> they go
  in front of them (a stack). The fuel bounds the number of tasks taken; \<open>None\<close>:
  the fuel ran out with tasks pending.
\<close>

datatype discipline = Fifo | Lifo

fun enqueue_all :: "discipline \<Rightarrow> (string \<times> int) list \<Rightarrow> (string \<times> int) list \<Rightarrow> (string \<times> int) list" where
  "enqueue_all Fifo new pending = pending @ new"
| "enqueue_all Lifo new pending = new @ pending"

fun resolve_all :: "world \<Rightarrow> string list \<Rightarrow> failure + string list" where
  "resolve_all w [] = Inr []"
| "resolve_all w (href # hrefs) =
     (case newURL w href (baseUrl w) of
        None \<Rightarrow> Inl (InvalidURL href)
      | Some absolute \<Rightarrow>
          (case resolve_all w hrefs of
             Inl e \<Rightarrow> Inl e
           | Inr rest \<Rightarrow> Inr (absolute # rest)))"

fun frontier_loop ::
  "discipline \<Rightarrow> world \<Rightarrow> nat \<Rightarrow> (string \<times> int) list \<Rightarrow> crawl_state \<Rightarrow> outcome option" where
  "frontier_loop d w fuel [] st = Some (Done st)"
| "frontier_loop d w 0 (task # pending) st = None"
| "frontier_loop d w (Suc fuel) ((url, depth) # pending) st =
     (if url \<in> set (visited st) \<or> depth = 0
      then frontier_loop d w fuel pending (log_event (Call url depth) st)
      else
        (case audit_page w url
                (log_event (Add url)
                   ((log_event (Call url depth) st)\<lparr>visited := set_add url (visited st)\<rparr>)) of
           Inl (e, st') \<Rightarrow> Some (Aborted e st')
         | Inr (hrefs, st') \<Rightarrow>
             (case resolve_all w hrefs of
                Inl e \<Rightarrow> Some (Aborted e st')
              | Inr found \<Rightarrow>
                  frontier_loop d w fuel
                    (enqueue_all d (map (\<lambda>absolute. (absolute, depth - 1)) found) pending) st')))"

fun and_then :: "outcome \<Rightarrow> (crawl_state \<Rightarrow> outcome option) \<Rightarrow> outcome option" where
  "and_then (Done st) f = f st"
| "and_then (Aborted e st) f = Some (Aborted e st)"

definition visit_order :: "outcome \<Rightarrow> string list" where
  "visit_order out = urls_of Visit (trace (final out))"

subsection \<open>Example sites\<close>

text \<open>
  The URL constructor on the hrefs of the examples below: a path-absolute href without
  dot segments, resolved against a base that is an origin, is the origin followed by the
  href; the href \<open>//\<close> has an empty host, and the constructor throws on it.
\<close>

definition example_newURL :: "string \<Rightarrow> string \<Rightarrow> string option" where
  "example_newURL href base = (if href = ''//'' then None else Some (base @ href))"


text \<open>The root page links to \<open>/about\<close> and \<open>/contact\<close>; \<open>cy.visit\<close> fails on \<open>/about\<close>.\<close>

definition broken_site :: world where
  "broken_site = \<lparr>baseUrl = ''http://localhost:3000'', newURL = example_newURL,
     site = [(''http://localhost:3000/'', Loaded [''/about'', ''/contact'']),
             (''http://localhost:3000/about'', Fails Visit),
             (''http://localhost:3000/contact'', Loaded [''/''])]\<rparr>"

text \<open>The first anchor of the root page has the href \<open>//\<close>.\<close>

definition malformed_site :: world where
  "malformed_site = \<lparr>baseUrl = ''http://localhost:3000'', newURL = example_newURL,
     site = [(''http://localhost:3000/'', Loaded [''//'', ''/about'']),
             (''http://localhost:3000/about'', Loaded [''/''])]\<rparr>"

text \<open>
  The root page links to \<open>/docs\<close> and \<open>/blog\<close>, in this order, and \<open>/docs\<close> links
  to \<open>/docs/intro\<close>.
\<close>

definition tree_site :: world where
  "tree_site = \<lparr>baseUrl = ''http://localhost:3000'', newURL = example_newURL,
     site = [(''http://localhost:3000/'', Loaded [''/docs'', ''/blog'']),
             (''http://localhost:3000/docs'', Loaded [''/docs/intro'']),
             (''http://localhost:3000/blog'', Loaded [''/'']),
             (''http://localhost:3000/docs/intro'', Loaded [''/''])]\<rparr>"

text \<open>The equations that evaluate a run on a concrete site.\<close>

lemmas crawl_eval = crawl_def crawl_depth_def spider.simps empty_state_def log_event_def
    audit_page_def page_of_def run_commands_def set_add_def new_Set_def keep_href_def
    example_newURL_def

section \<open>Create the issues: the filing loop\<close>

text \<open>
  The reports directory: the files in the order \<open>fs.readdirSync\<close> lists them, by
  name, each with its content. \<open>cy.writeFile\<close> replaces the content of a file that
  exists, and a new file takes its place in the order of the names.
\<close>

type_synonym reports = "(string \<times> string) list"

fun writeFile :: "string \<Rightarrow> string \<Rightarrow> reports \<Rightarrow> reports" where
  "writeFile name content [] = [(name, content)]"
| "writeFile name content ((n, c) # files) =
     (if n = name then (name, content) # files
      else if name < n then (name, content) # (n, c) # files
      else (n, c) # writeFile name content files)"

text \<open>The callback that saves the report of a page: the key, the markdown, the write.\<close>

definition save_report :: "string \<Rightarrow> violation list \<Rightarrow> reports \<Rightarrow> reports" where
  "save_report url violations dir =
     writeFile (report_file url) (formatViolationsToMarkdown url violations) dir"

text \<open>
  What the loop derives from the name of a report file: the page, the title of the
  issue, and the two shell command lines it hands to \<open>execSync\<close>. The title and the
  body are spliced into the command lines as they are, between double quotes.
\<close>

definition dquote :: string where
  "dquote = [CHR 0x22]"

definition page_name :: "string \<Rightarrow> string" where
  "page_name file = replace_first file ''.md'' ''''"

definition issue_title :: "string \<Rightarrow> string" where
  "issue_title file = ''Accessibility issues on /'' @ page_name file"

definition list_command :: "string \<Rightarrow> string" where
  "list_command title =
     ''gh issue list --search '' @ dquote @ title @ dquote @ '' --state open''"

definition create_command :: "string \<Rightarrow> string \<Rightarrow> string" where
  "create_command title body =
     ''gh issue create --title '' @ dquote @ title @ dquote @
     '' --body '' @ dquote @ body @ dquote @
     '' --label '' @ dquote @ ''accessibility,automated'' @ dquote"

text \<open>
  The shell, the GitHub command line and the issue tracker behind it are the
  environment of the loop. \<open>execSync\<close> takes a command line and the state of the
  environment, and gives what the command printed, or \<open>None\<close> when the command
  fails and \<open>execSync\<close> throws, and the state the command leaves.
\<close>

type_synonym 'e execSync = "string \<Rightarrow> 'e \<Rightarrow> string option \<times> 'e"

text \<open>The three lines the loop prints, each with the page it names.\<close>

datatype message = AlreadyExists string | Created string | FailedToCreate string

text \<open>
  The state of the loop: the environment, the lines printed, and the command lines
  handed to \<open>execSync\<close>, in order.
\<close>

record 'e filing =
  tracker :: 'e
  console :: "message list"
  ran :: "string list"

text \<open>
  The listing runs outside of any \<open>try\<close>: when it fails, the exception ends the
  loop. The creation runs inside the \<open>try\<close>: when it fails, the loop prints the
  failure and goes on with the next file.
\<close>

datatype 'e filing_outcome = Filed "'e filing" | Crashed "'e filing"

fun filing_of :: "'e filing_outcome \<Rightarrow> 'e filing" where
  "filing_of (Filed s) = s"
| "filing_of (Crashed s) = s"

fun file_issues :: "'e execSync \<Rightarrow> reports \<Rightarrow> 'e filing \<Rightarrow> 'e filing_outcome" where
  "file_issues exec [] s = Filed s"
| "file_issues exec ((file, content) # rest) s =
     (let page = page_name file;
          title = ''Accessibility issues on /'' @ page;
          body = content
      in case exec (list_command title) (tracker s) of
           (None, e) \<Rightarrow> Crashed (s\<lparr>tracker := e, ran := ran s @ [list_command title]\<rparr>)
         | (Some existing, e) \<Rightarrow>
             if includes_str existing title
             then file_issues exec rest
                    (s\<lparr>tracker := e, console := console s @ [AlreadyExists page],
                       ran := ran s @ [list_command title]\<rparr>)
             else
               (case exec (create_command title body) e of
                  (Some out, e') \<Rightarrow>
                    file_issues exec rest
                      (s\<lparr>tracker := e', console := console s @ [Created page],
                         ran := ran s @ [list_command title, create_command title body]\<rparr>)
                | (None, e') \<Rightarrow>
                    file_issues exec rest
                      (s\<lparr>tracker := e', console := console s @ [FailedToCreate page],
                         ran := ran s @ [list_command title, create_command title body]\<rparr>)))"

section \<open>Properties of the formatter and of the report store\<close>

lemma replace_slashes_dash: "replace_slashes s ''-'' = map slash_to_dash s"
  by (induction s) (simp_all add: slash_to_dash_def)

lemma remove_leading_dash_case:
  "remove_leading_dash s = (case s of [] \<Rightarrow> [] | c # cs \<Rightarrow> if c = CHR ''-'' then cs else c # cs)"
  by (cases s) simp_all

text \<open>
  Claim C6. Whatever the page URL, a report with an empty violation list is the page
  heading (the level-two heading naming the URL, followed by a blank line) and then the
  fixed sentinel \<open>_No violations found._\<close>, with nothing before, between or after.
\<close>

theorem empty_violations_sentinel:
  "formatViolationsToMarkdown url [] =
     ''## Accessibility Violations on `'' @ url @ ''`'' @ [CHR 10, CHR 10] @
     ''_No violations found._''"
  by (simp add: formatViolationsToMarkdown_def header_def newline_def)

text \<open>
  Claim C7. The key of a page in the report store is the slug of the specification:
  \<open>home\<close> for the root path, and for any other path the path with every slash turned
  into a dash and one leading dash removed. The artifact of the page is the file
  \<open>a11y-<slug>.md\<close>, written in the \<open>reports\<close> directory.
\<close>

theorem report_key_is_slug:
  "safeName url = spec_slug url \<and>
   safeName ''/'' = ''home'' \<and>
   report_file url = ''a11y-'' @ spec_slug url @ ''.md'' \<and>
   report_path url = ''reports/a11y-'' @ spec_slug url @ ''.md''"
  by (simp add: safeName_def spec_slug_def report_file_def report_path_def
      replace_slashes_dash remove_leading_dash_case)

section \<open>Properties of the crawl\<close>

subsection \<open>Each URL is audited at most once\<close>

lemma urls_of_append: "urls_of c (t @ t') = urls_of c t @ urls_of c t'"
  by (induction c t rule: urls_of.induct) simp_all

lemma urls_of_commands:
  "distinct cs \<Longrightarrow> urls_of c (map (\<lambda>c'. Cmd c' url) cs) = (if c \<in> set cs then [url] else [])"
  by (induction cs) auto

lemma distinct_commands_upto: "distinct (commands_upto c)"
  by (cases c) simp_all

lemma once_log_Call: "once (log_event (Call url depth) st) = once st"
  by (simp add: once_def log_event_def urls_of_append)

lemma audit_page_state:
  assumes "audit_page w url st = Inl (e, st') \<or> audit_page w url st = Inr (hrefs, st')"
  shows "\<exists>cs. distinct cs \<and> st' = run_commands cs url st"
proof (cases "page_of w url")
  case (Fails c)
  with assms have "st' = run_commands (commands_upto c) url st"
    by (auto simp: audit_page_def)
  with distinct_commands_upto show ?thesis by blast
next
  case (Loaded hs)
  with assms have "st' = run_commands [Visit, InjectAxe, CheckA11y, GetLinks] url st"
    by (auto simp: audit_page_def Let_def split: sum.splits)
  moreover have "distinct [Visit, InjectAxe, CheckA11y, GetLinks]" by simp
  ultimately show ?thesis by blast
qed

lemma once_step:
  assumes o: "once st" and nv: "url \<notin> set (visited st)" and d: "distinct cs"
  shows "once (run_commands cs url
           (log_event (Add url)
              ((log_event (Call url depth) st)\<lparr>visited := set_add url (visited st)\<rparr>)))"
    (is "once ?s")
proof -
  have v: "visited ?s = visited st @ [url]"
    using nv by (simp add: run_commands_def log_event_def set_add_def)
  have t: "urls_of c (trace ?s) = urls_of c (trace st) @ (if c \<in> set cs then [url] else [])" for c
    by (simp add: run_commands_def log_event_def urls_of_append urls_of_commands [OF d])
  have old: "distinct (urls_of c (trace st))" "set (urls_of c (trace st)) \<subseteq> set (visited st)" for c
    using o by (simp_all add: once_def)
  have fresh: "url \<notin> set (urls_of c (trace st))" for c
    using old(2) [of c] nv by blast
  show ?thesis
    unfolding once_def
  proof (intro conjI allI)
    show "distinct (visited ?s)" unfolding v using o nv by (simp add: once_def)
  next
    fix c
    show "distinct (urls_of c (trace ?s))"
      unfolding t using old(1) [of c] fresh [of c] by simp
  next
    fix c
    show "set (urls_of c (trace ?s)) \<subseteq> set (visited ?s)"
      unfolding t v using old(2) [of c] by auto
  qed
qed

lemma spider_preserves:
  assumes call: "\<And>st url depth. I st \<Longrightarrow> I (log_event (Call url depth) st)"
    and step: "\<And>st url depth cs. I st \<Longrightarrow> url \<notin> set (visited st) \<Longrightarrow> distinct cs \<Longrightarrow>
      I (run_commands cs url (log_event (Add url)
           ((log_event (Call url depth) st)\<lparr>visited := set_add url (visited st)\<rparr>)))"
  shows "I st \<Longrightarrow> I (final (spider w url depth st))"
    and "I st \<Longrightarrow> I (final (each_href w hrefs depth st))"
proof (induction w url depth st and w hrefs depth st rule: spider_each_href.induct)
  case (1 w url depth st)
  show ?case
  proof (cases "url \<in> set (visited st) \<or> depth = 0")
    case True
    with "1.prems" show ?thesis by (simp add: spider.simps call)
  next
    case False
    let ?s = "log_event (Add url) ((log_event (Call url depth) st)\<lparr>visited := set_add url (visited st)\<rparr>)"
    show ?thesis
    proof (cases "audit_page w url ?s")
      case (Inl p)
      obtain e s1 where p: "p = (e, s1)" by (cases p)
      from audit_page_state [of w url ?s e s1] Inl p obtain cs where
        "distinct cs" "s1 = run_commands cs url ?s" by blast
      with "1.prems" False have "I s1" by (simp add: step)
      with False Inl p show ?thesis by (simp add: spider.simps)
    next
      case (Inr p)
      obtain hrefs s1 where p: "p = (hrefs, s1)" by (cases p)
      from audit_page_state [of w url ?s _ s1 hrefs] Inr p obtain cs where
        "distinct cs" "s1 = run_commands cs url ?s" by blast
      with "1.prems" False have "I s1" by (simp add: step)
      from "1.IH" [OF False Inr [unfolded p] refl this] False Inr p
      show ?thesis by (simp add: spider.simps)
    qed
  qed
next
  case (2 w depth st)
  then show ?case by simp
next
  case (3 w href hrefs depth st)
  show ?case
  proof (cases "newURL w href (baseUrl w)")
    case None
    with "3.prems" show ?thesis by simp
  next
    case (Some a)
    show ?thesis
    proof (cases "spider w a (depth - 1) st")
      case (Done s1)
      from "3.IH"(1) [OF Some "3.prems"] Done have "I s1" by simp
      from "3.IH"(2) [OF Some Done this] Some Done show ?thesis by simp
    next
      case (Aborted e s1)
      from "3.IH"(1) [OF Some "3.prems"] Aborted Some show ?thesis by simp
    qed
  qed
qed

lemma once_spider:
  "once st \<Longrightarrow> once (final (spider w url depth st))"
  by (rule spider_preserves(1) [where I = once]) (simp_all add: once_log_Call once_step)

lemma once_empty: "once empty_state"
  by (simp add: once_def empty_state_def)

text \<open>
  Claim C1. In a run of \<open>spider\<close> from the empty \<open>visited\<close> set, on any site,
  from any seed URL and with any depth, whether the run completes or aborts:
  \<open>cy.visit\<close> runs at most once on each URL, \<open>cy.checkA11y\<close> runs at most once
  on each URL, and \<open>visited\<close> holds each URL at most once, whatever links, paths
  or cycles of the site lead to it.
\<close>

theorem audited_at_most_once:
  "distinct (urls_of Visit (trace (final (spider w url depth empty_state)))) \<and>
   distinct (urls_of CheckA11y (trace (final (spider w url depth empty_state)))) \<and>
   distinct (visited (final (spider w url depth empty_state)))"
  using once_spider(1) [OF once_empty, of w url depth] by (simp add: once_def)

subsection \<open>A URL enters \<open>visited\<close> before any command runs on it\<close>

lemma added_first_append:
  "added_first seen (t @ t') \<longleftrightarrow> added_first seen t \<and> added_first (seen \<union> added t) t'"
  by (induction seen t rule: added_first.induct) simp_all

lemma added_first_commands:
  "added_first seen (map (\<lambda>c. Cmd c url) cs) \<longleftrightarrow> cs = [] \<or> url \<in> seen"
  by (induction cs) auto

lemma added_first_spider:
  "added_first {} (trace st) \<Longrightarrow> added_first {} (trace (final (spider w url depth st)))"
proof (rule spider_preserves(1) [where I = "\<lambda>s. added_first {} (trace s)"], goal_cases)
  case (1 st url depth)
  then show ?case by (simp add: log_event_def added_first_append)
next
  case (2 st url depth cs)
  then show ?case
    by (simp add: run_commands_def log_event_def added_first_append added_first_commands)
qed

lemma filter_hrefs_Inl:
  "filter_hrefs w vis hs = Inl e \<Longrightarrow> \<exists>h \<in> set hs. e = InvalidURL h \<and> keep_href w vis h = None"
  by (induction hs) (auto split: option.splits sum.splits)

lemma failed_url_visited:
  "failure_of (spider w url depth st) = Some (CommandFailed c u) \<Longrightarrow>
     u \<in> set (visited (final (spider w url depth st)))"
  "failure_of (each_href w hrefs depth st) = Some (CommandFailed c u) \<Longrightarrow>
     u \<in> set (visited (final (each_href w hrefs depth st)))"
proof (induction w url depth st and w hrefs depth st rule: spider_each_href.induct)
  case (1 w url depth st)
  show ?case
  proof (cases "url \<in> set (visited st) \<or> depth = 0")
    case True
    with "1.prems" show ?thesis by (simp add: spider.simps)
  next
    case False
    let ?s = "log_event (Add url) ((log_event (Call url depth) st)\<lparr>visited := set_add url (visited st)\<rparr>)"
    show ?thesis
    proof (cases "audit_page w url ?s")
      case (Inl p)
      obtain e s1 where p: "p = (e, s1)" by (cases p)
      from Inl p False "1.prems" have e: "e = CommandFailed c u"
        by (simp add: spider.simps)
      from Inl p e have "u = url \<and> visited s1 = set_add url (visited st)"
        by (auto simp: audit_page_def Let_def split: page.splits sum.splits
            dest: filter_hrefs_Inl)
      with False Inl p show ?thesis by (simp add: spider.simps set_set_add)
    next
      case (Inr p)
      obtain hrefs s1 where p: "p = (hrefs, s1)" by (cases p)
      from "1.IH" [OF False Inr [unfolded p] refl] "1.prems" False Inr p
      show ?thesis by (simp add: spider.simps)
    qed
  qed
next
  case (2 w depth st)
  then show ?case by simp
next
  case (3 w href hrefs depth st)
  show ?case
  proof (cases "newURL w href (baseUrl w)")
    case None
    with "3.prems" show ?thesis by simp
  next
    case (Some a)
    show ?thesis
    proof (cases "spider w a (depth - 1) st")
      case (Done s1)
      from "3.IH"(2) [OF Some Done] "3.prems" Some Done show ?thesis by simp
    next
      case (Aborted e s1)
      from "3.IH"(1) [OF Some] "3.prems" Aborted Some show ?thesis by simp
    qed
  qed
qed

lemma once_distinct: "once st \<Longrightarrow> distinct (urls_of c (trace st))"
  by (simp add: once_def)

text \<open>
  Claim C10. In a run of \<open>spider\<close> from the empty \<open>visited\<close> set, every Cypress
  command on a URL (the visit, the injection of axe, the accessibility check, the
  reading of the links) comes after the \<open>visited.add\<close> of that URL. So when the
  visit or the check of a page fails, the URL of the page is in \<open>visited\<close> already;
  a call of \<open>spider\<close> on a URL in \<open>visited\<close> returns at its guard and runs no
  command; and no URL is visited or checked twice in the run.
\<close>

theorem added_before_audit:
  "added_first {} (trace (final (spider w url depth empty_state))) \<and>
   (failure_of (spider w url depth empty_state) = Some (CommandFailed c u) \<longrightarrow>
      u \<in> set (visited (final (spider w url depth empty_state)))) \<and>
   (u \<in> set (visited st) \<longrightarrow> spider w u d st = Done (log_event (Call u d) st)) \<and>
   count_list (urls_of Visit (trace (final (spider w url depth empty_state)))) u \<le> 1 \<and>
   count_list (urls_of CheckA11y (trace (final (spider w url depth empty_state)))) u \<le> 1"
proof -
  have o: "once (final (spider w url depth empty_state))"
    by (rule once_spider(1) [OF once_empty])
  have d: "distinct xs \<Longrightarrow> count_list xs u \<le> 1" for xs :: "string list"
    by (induction xs) auto
  have "added_first {} (trace (final (spider w url depth empty_state)))"
    by (rule added_first_spider) (simp add: empty_state_def)
  moreover have "count_list (urls_of Visit (trace (final (spider w url depth empty_state)))) u \<le> 1"
    "count_list (urls_of CheckA11y (trace (final (spider w url depth empty_state)))) u \<le> 1"
    using o by (blast intro: d dest: once_distinct)+
  ultimately show ?thesis
    using failed_url_visited(1) [of w url depth empty_state c u]
    by (simp add: spider.simps)
qed

theorem added_before_audit_witness:
  "added_first {} (trace (final (spider broken_site ''http://localhost:3000/'' 2 empty_state))) \<and>
   failure_of (spider broken_site ''http://localhost:3000/'' 2 empty_state) =
     Some (CommandFailed Visit ''http://localhost:3000/about'') \<and>
   ''http://localhost:3000/about'' \<in>
     set (visited (final (spider broken_site ''http://localhost:3000/'' 2 empty_state))) \<and>
   ''http://localhost:3000/about'' \<in>
     set (visited \<lparr>visited = [''http://localhost:3000/about''], trace = []\<rparr>) \<and>
   spider broken_site ''http://localhost:3000/about'' 1
       \<lparr>visited = [''http://localhost:3000/about''], trace = []\<rparr> =
     Done \<lparr>visited = [''http://localhost:3000/about''],
            trace = [Call ''http://localhost:3000/about'' 1]\<rparr>"
proof -
  have f: "failure_of (spider broken_site ''http://localhost:3000/'' 2 empty_state) =
      Some (CommandFailed Visit ''http://localhost:3000/about'')"
    by (simp add: broken_site_def crawl_eval)
  show ?thesis
    using f added_before_audit [of broken_site "''http://localhost:3000/''" 2 Visit
        "''http://localhost:3000/about''"
        "\<lparr>visited = [''http://localhost:3000/about''], trace = []\<rparr>" 1]
    by (simp add: log_event_def)
qed

subsection \<open>The depth counts the levels of the crawl, the seed included\<close>





subsection \<open>A failed visit or check aborts the run\<close>

lemma audit_page_Fails:
  "page_of w url = Fails c \<Longrightarrow>
     audit_page w url st = Inl (CommandFailed c url, run_commands (commands_upto c) url st)"
  by (simp add: audit_page_def)

lemma audit_page_Loaded:
  "page_of w url = Loaded hs \<Longrightarrow>
     audit_page w url st =
       (case filter_hrefs w (visited st) hs of
          Inl e \<Rightarrow> Inl (e, run_commands [Visit, InjectAxe, CheckA11y, GetLinks] url st)
        | Inr kept \<Rightarrow> Inr (new_Set kept, run_commands [Visit, InjectAxe, CheckA11y, GetLinks] url st))"
  by (simp add: audit_page_def Let_def)

lemma last_commands_upto: "last (map f (commands_upto c)) = f c"
  by (cases c) simp_all

lemma trace_extends:
  "\<exists>new. trace (final (spider w url depth st)) = trace st @ new"
  "\<exists>new. trace (final (each_href w hrefs depth st)) = trace st @ new"
proof -
  have a: "I st" if "I = (\<lambda>s. \<exists>new. trace s = trace st @ new)" for I
    using that by simp
  show "\<exists>new. trace (final (spider w url depth st)) = trace st @ new"
    by (rule spider_preserves(1) [where I = "\<lambda>s. \<exists>new. trace s = trace st @ new"])
      (auto simp: log_event_def run_commands_def)
  show "\<exists>new. trace (final (each_href w hrefs depth st)) = trace st @ new"
    by (rule spider_preserves(2) [where I = "\<lambda>s. \<exists>new. trace s = trace st @ new"])
      (auto simp: log_event_def run_commands_def)
qed

lemma stops_at_failure_spider:
  "stops_at_failure w st (spider w url depth st)"
  "stops_at_failure w st (each_href w hrefs depth st)"
proof (induction w url depth st and w hrefs depth st rule: spider_each_href.induct)
  case (1 w url depth st)
  show ?case
  proof (cases "url \<in> set (visited st) \<or> depth = 0")
    case True
    then show ?thesis
      by (auto simp: spider.simps stops_at_failure_def log_event_def)
  next
    case False
    let ?s = "log_event (Add url) ((log_event (Call url depth) st)\<lparr>visited := set_add url (visited st)\<rparr>)"
    have ts: "trace ?s = trace st @ [Call url depth, Add url]"
      by (simp add: log_event_def)
    show ?thesis
    proof (cases "page_of w url")
      case (Fails c0)
      have out: "spider w url depth st =
          Aborted (CommandFailed c0 url) (run_commands (commands_upto c0) url ?s)"
        using False by (simp add: spider.simps audit_page_Fails [OF Fails])
      have "commands_upto c0 \<noteq> []" by (cases c0) simp_all
      then show ?thesis
        unfolding stops_at_failure_def out
        using Fails by (auto simp: run_commands_def ts last_commands_upto)
    next
      case (Loaded hs)
      let ?s1 = "run_commands [Visit, InjectAxe, CheckA11y, GetLinks] url ?s"
      have t1: "trace ?s1 = trace st @ [Call url depth, Add url, Cmd Visit url,
          Cmd InjectAxe url, Cmd CheckA11y url, Cmd GetLinks url]"
        by (simp add: run_commands_def ts)
      show ?thesis
      proof (cases "filter_hrefs w (visited ?s) hs")
        case (Inl e)
        then have out: "spider w url depth st = Aborted e ?s1"
          using False by (simp add: spider.simps audit_page_Loaded [OF Loaded])
        show ?thesis
          unfolding stops_at_failure_def out using Loaded by (auto simp: t1)
      next
        case (Inr kept)
        then have a: "audit_page w url ?s = Inr (new_Set kept, ?s1)"
          by (simp add: audit_page_Loaded [OF Loaded])
        then have out: "spider w url depth st = each_href w (new_Set kept) depth ?s1"
          using False by (simp add: spider.simps)
        from "1.IH" [OF False a refl]
        have ih: "stops_at_failure w ?s1 (each_href w (new_Set kept) depth ?s1)" .
        obtain new2 where n2: "trace (final (each_href w (new_Set kept) depth ?s1)) = trace ?s1 @ new2"
          using trace_extends(2) by blast
        show ?thesis
          unfolding stops_at_failure_def out
        proof (intro allI impI)
          fix new c u
          assume n: "trace (final (each_href w (new_Set kept) depth ?s1)) = trace st @ new"
            and m: "Cmd c u \<in> set new" and f: "page_of w u = Fails c"
          from n n2 have new: "new = [Call url depth, Add url, Cmd Visit url,
              Cmd InjectAxe url, Cmd CheckA11y url, Cmd GetLinks url] @ new2"
            by (simp add: t1)
          with m f Loaded have m2: "Cmd c u \<in> set new2" by auto
          from m2 have "new2 \<noteq> []" by auto
          with ih [unfolded stops_at_failure_def, rule_format, OF n2 m2 f]
          show "each_href w (new_Set kept) depth ?s1 =
              Aborted (CommandFailed c u) (final (each_href w (new_Set kept) depth ?s1)) \<and>
              last new = Cmd c u"
            by (simp add: new)
        qed
      qed
    qed
  qed
next
  case (2 w depth st)
  show ?case by (simp add: stops_at_failure_def)
next
  case (3 w href hrefs depth st)
  show ?case
  proof (cases "newURL w href (baseUrl w)")
    case None
    then show ?thesis by (simp add: stops_at_failure_def)
  next
    case (Some a)
    show ?thesis
    proof (cases "spider w a (depth - 1) st")
      case (Aborted e s1)
      with Some "3.IH"(1) [OF Some] show ?thesis by simp
    next
      case (Done s1)
      then have out: "each_href w (href # hrefs) depth st = each_href w hrefs depth s1"
        using Some by simp
      from "3.IH"(1) [OF Some] Done have ih1: "stops_at_failure w st (Done s1)" by simp
      from "3.IH"(2) [OF Some Done] have ih2: "stops_at_failure w s1 (each_href w hrefs depth s1)" .
      obtain new1 where n1: "trace s1 = trace st @ new1"
        using trace_extends(1) [of w a "depth - 1" st] Done by auto
      obtain new2 where n2: "trace (final (each_href w hrefs depth s1)) = trace s1 @ new2"
        using trace_extends(2) by blast
      show ?thesis
        unfolding stops_at_failure_def out
      proof (intro allI impI)
        fix new c u
        assume n: "trace (final (each_href w hrefs depth s1)) = trace st @ new"
          and m: "Cmd c u \<in> set new" and f: "page_of w u = Fails c"
        from n n1 n2 have new: "new = new1 @ new2" by simp
        have "Cmd c u \<notin> set new1"
          using ih1 [unfolded stops_at_failure_def, rule_format, of new1 c u] n1 f by auto
        with m new have m2: "Cmd c u \<in> set new2" by auto
        from m2 have "new2 \<noteq> []" by auto
        with ih2 [unfolded stops_at_failure_def, rule_format, OF n2 m2 f]
        show "each_href w hrefs depth s1 =
            Aborted (CommandFailed c u) (final (each_href w hrefs depth s1)) \<and>
            last new = Cmd c u"
          by (simp add: new)
      qed
    qed
  qed
qed

text \<open>
  Claim C3, as stated, fails: on the example site the failed visit of \<open>/about\<close> is the
  outcome of the run, and \<open>/contact\<close>, the next link of the root page, is never
  visited.
\<close>

theorem audit_failure_not_absorbed:
  "failure_of (crawl broken_site) = Some (CommandFailed Visit ''http://localhost:3000/about'') \<and>
   urls_of Visit (trace (final (crawl broken_site))) =
     [''http://localhost:3000/'', ''http://localhost:3000/about'']"
  by (simp add: broken_site_def crawl_eval)

text \<open>
  Claim C3, amended. Nothing in \<open>spider\<close> handles a failed command: no placeholder
  violation is made and no report is produced for the page. In a run from the empty
  \<open>visited\<close> set, when a command ran on a page on which that command fails, the run
  is aborted with that failure, and the failed command is the last thing the run did:
  no page is visited after it.
\<close>

theorem audit_failure_aborts_run:
  assumes "Cmd c u \<in> set (trace (final (spider w url depth empty_state)))"
    and "page_of w u = Fails c"
  shows "spider w url depth empty_state =
           Aborted (CommandFailed c u) (final (spider w url depth empty_state)) \<and>
         last (trace (final (spider w url depth empty_state))) = Cmd c u"
  using stops_at_failure_spider(1) [of w empty_state url depth, unfolded stops_at_failure_def,
      rule_format, of "trace (final (spider w url depth empty_state))" c u] assms
  by (simp add: empty_state_def)

theorem audit_failure_aborts_run_witness:
  "Cmd Visit ''http://localhost:3000/about'' \<in>
     set (trace (final (spider broken_site ''http://localhost:3000/'' 2 empty_state))) \<and>
   page_of broken_site ''http://localhost:3000/about'' = Fails Visit \<and>
   spider broken_site ''http://localhost:3000/'' 2 empty_state =
     Aborted (CommandFailed Visit ''http://localhost:3000/about'')
       (final (spider broken_site ''http://localhost:3000/'' 2 empty_state)) \<and>
   last (trace (final (spider broken_site ''http://localhost:3000/'' 2 empty_state))) =
     Cmd Visit ''http://localhost:3000/about''"
proof -
  have a: "Cmd Visit ''http://localhost:3000/about'' \<in>
      set (trace (final (spider broken_site ''http://localhost:3000/'' 2 empty_state)))"
    by (simp add: broken_site_def crawl_eval)
  have b: "page_of broken_site ''http://localhost:3000/about'' = Fails Visit"
    by (simp add: broken_site_def page_of_def)
  show ?thesis
    using a b audit_failure_aborts_run [OF a b] by simp
qed

subsection \<open>An href that does not parse aborts the run\<close>

lemma filter_hrefs_invalid:
  "h \<in> set hs \<Longrightarrow> keep_href w vis h = None \<Longrightarrow>
     \<exists>h' \<in> set hs. filter_hrefs w vis hs = Inl (InvalidURL h') \<and> keep_href w vis h' = None"
  by (induction hs) (auto split: option.splits sum.splits)

lemma keep_href_None:
  "keep_href w vis h = None \<longleftrightarrow>
     \<not> startsWith h ''#'' \<and> \<not> includes_str h ''logout'' \<and> \<not> includes_str h ''mailto:'' \<and>
     newURL w h (baseUrl w) = None"
  by (simp add: keep_href_def split: option.splits)

text \<open>
  Claim C5, as stated, fails: on the example site the href \<open>//\<close> of the root page
  aborts the run, and \<open>/about\<close>, the next link of the root page, is never visited.
\<close>

theorem malformed_href_not_dropped:
  "failure_of (crawl malformed_site) = Some (InvalidURL ''//'') \<and>
   urls_of Visit (trace (final (crawl malformed_site))) = [''http://localhost:3000/'']"
  by (simp add: malformed_site_def crawl_eval)

text \<open>
  Claim C5, amended. The link filter calls the URL constructor on every href that does
  not start with \<open>#\<close> and contains neither \<open>logout\<close> nor \<open>mailto:\<close>, and nothing
  catches what the constructor throws. When \<open>spider\<close> passes its guard on a page
  that has such an href that does not parse, the run is aborted with the
  \<open>TypeError\<close> of an href of that page, right after the four commands on the page:
  no href is dropped or logged, and no link of the page is followed.
\<close>

theorem malformed_href_aborts_crawl:
  assumes "url \<notin> set (visited st)" and "depth \<noteq> 0"
    and "page_of w url = Loaded hs" and "h \<in> set hs"
    and "\<not> startsWith h ''#''" and "\<not> includes_str h ''logout''" and "\<not> includes_str h ''mailto:''"
    and "newURL w h (baseUrl w) = None"
  shows "\<exists>h' \<in> set hs. newURL w h' (baseUrl w) = None \<and>
           spider w url depth st =
             Aborted (InvalidURL h')
               (run_commands [Visit, InjectAxe, CheckA11y, GetLinks] url
                  (log_event (Add url)
                     ((log_event (Call url depth) st)\<lparr>visited := set_add url (visited st)\<rparr>)))"
proof -
  let ?s = "log_event (Add url) ((log_event (Call url depth) st)\<lparr>visited := set_add url (visited st)\<rparr>)"
  from assms have "keep_href w (visited ?s) h = None"
    by (simp add: keep_href_None)
  from filter_hrefs_invalid [OF assms(4) this] obtain h' where
    h': "h' \<in> set hs" "filter_hrefs w (visited ?s) hs = Inl (InvalidURL h')"
      "keep_href w (visited ?s) h' = None"
    by blast
  from h'(2) assms(1,2) have "spider w url depth st =
      Aborted (InvalidURL h') (run_commands [Visit, InjectAxe, CheckA11y, GetLinks] url ?s)"
    by (simp add: spider.simps audit_page_Loaded [OF assms(3)])
  with h'(1,3) show ?thesis by (auto simp: keep_href_None)
qed

theorem malformed_href_aborts_crawl_witness:
  "''http://localhost:3000/'' \<notin> set (visited empty_state) \<and> (2::int) \<noteq> 0 \<and>
   page_of malformed_site ''http://localhost:3000/'' = Loaded [''//'', ''/about''] \<and>
   ''//'' \<in> set [''//'', ''/about''] \<and>
   \<not> startsWith ''//'' ''#'' \<and> \<not> includes_str ''//'' ''logout'' \<and>
   \<not> includes_str ''//'' ''mailto:'' \<and>
   newURL malformed_site ''//'' (baseUrl malformed_site) = None \<and>
   (\<exists>h' \<in> set [''//'', ''/about'']. newURL malformed_site h' (baseUrl malformed_site) = None \<and>
      spider malformed_site ''http://localhost:3000/'' 2 empty_state =
        Aborted (InvalidURL h')
          (run_commands [Visit, InjectAxe, CheckA11y, GetLinks] ''http://localhost:3000/''
             (log_event (Add ''http://localhost:3000/'')
                ((log_event (Call ''http://localhost:3000/'' 2) empty_state)
                   \<lparr>visited := set_add ''http://localhost:3000/'' (visited empty_state)\<rparr>))))"
proof -
  have a: "''http://localhost:3000/'' \<notin> set (visited empty_state)"
    by (simp add: empty_state_def)
  have b: "(2::int) \<noteq> 0" by simp
  have c: "page_of malformed_site ''http://localhost:3000/'' = Loaded [''//'', ''/about'']"
    by (simp add: malformed_site_def page_of_def)
  have d: "''//'' \<in> set [''//'', ''/about'']" by simp
  have e: "\<not> startsWith ''//'' ''#''" "\<not> includes_str ''//'' ''logout''"
    "\<not> includes_str ''//'' ''mailto:''"
    by simp_all
  have f: "newURL malformed_site ''//'' (baseUrl malformed_site) = None"
    by (simp add: malformed_site_def example_newURL_def)
  show ?thesis
    using a b c d e f malformed_href_aborts_crawl [OF a b c d e f] by blast
qed

subsection \<open>The crawl terminates\<close>

lemma visited_within:
  "set (visited (final (spider w url depth st))) \<subseteq>
     set (visited st) \<union> insert url (link_targets w)"
  "set (visited (final (each_href w hrefs depth st))) \<subseteq>
     set (visited st) \<union> link_targets w \<union> resolved w hrefs"
proof (induction w url depth st and w hrefs depth st rule: spider_each_href.induct)
  case (1 w url depth st)
  show ?case
  proof (cases "url \<in> set (visited st) \<or> depth = 0")
    case True
    then show ?thesis by (auto simp: spider.simps)
  next
    case False
    let ?s = "log_event (Add url) ((log_event (Call url depth) st)\<lparr>visited := set_add url (visited st)\<rparr>)"
    show ?thesis
    proof (cases "audit_page w url ?s")
      case (Inl p)
      obtain e s1 where p: "p = (e, s1)" by (cases p)
      from audit_page_state [of w url ?s e s1] Inl p obtain cs where
        "s1 = run_commands cs url ?s" by blast
      with False Inl p show ?thesis by (auto simp: spider.simps set_set_add)
    next
      case (Inr p)
      obtain hrefs s1 where p: "p = (hrefs, s1)" by (cases p)
      note a = Inr [unfolded p]
      from "1.IH" [OF False a refl] audit_page_Inr [OF a] False Inr p
      show ?thesis by (auto simp: spider.simps set_set_add)
    qed
  qed
next
  case (2 w depth st)
  show ?case by auto
next
  case (3 w href hrefs depth st)
  show ?case
  proof (cases "newURL w href (baseUrl w)")
    case None
    then show ?thesis by auto
  next
    case (Some a)
    then have r: "a \<in> resolved w (href # hrefs)" "resolved w hrefs \<subseteq> resolved w (href # hrefs)"
      by (auto simp: resolved_iff)
    show ?thesis
    proof (cases "spider w a (depth - 1) st")
      case (Done s1)
      from "3.IH"(1) [OF Some] "3.IH"(2) [OF Some Done] Some Done r
      show ?thesis by auto
    next
      case (Aborted e s1)
      from "3.IH"(1) [OF Some] Aborted Some r show ?thesis by auto
    qed
  qed
qed

text \<open>
  Claim C9. On every site (a finite table of pages), for every base URL, every seed URL,
  every depth (zero and negative depths included) and every state of \<open>visited\<close>, the
  recursion of \<open>spider\<close> is well-founded: every call terminates, cycles of links
  included (the argument is in the domain of the function, which the package defines as
  the accessible part of the call relation). In a run from the empty \<open>visited\<close> set
  the pages visited are at most the seed and the absolute URLs the links of the site
  resolve to.
\<close>

theorem crawl_terminates:
  "spider_each_href_dom (Inl (w, url, depth, st)) \<and>
   length (urls_of Visit (trace (final (spider w url depth empty_state)))) \<le>
     Suc (card (link_targets w))"
proof -
  let ?st = "final (spider w url depth empty_state)"
  have "once ?st" by (rule once_spider [OF once_empty])
  then have d: "distinct (urls_of Visit (trace ?st))"
    and s: "set (urls_of Visit (trace ?st)) \<subseteq> set (visited ?st)"
    by (simp_all add: once_def)
  have "set (visited ?st) \<subseteq> insert url (link_targets w)"
    using visited_within(1) [of w url depth empty_state] by (simp add: empty_state_def)
  with s have "set (urls_of Visit (trace ?st)) \<subseteq> insert url (link_targets w)" by blast
  then have "card (set (urls_of Visit (trace ?st))) \<le> card (insert url (link_targets w))"
    by (intro card_mono) (simp_all add: finite_link_targets)
  also have "\<dots> \<le> Suc (card (link_targets w))"
    by (simp add: card_insert_if finite_link_targets)
  finally show ?thesis
    using d all_dom by (simp add: distinct_card)
qed

subsection \<open>The order of the audits\<close>

lemma keep_href_resolves:
  "keep_href w vis h = Some True \<Longrightarrow> \<exists>a. newURL w h (baseUrl w) = Some a"
  by (auto simp: keep_href_def split: if_splits option.splits)

lemma filter_hrefs_resolve:
  "filter_hrefs w vis hs = Inr kept \<Longrightarrow> h \<in> set kept \<Longrightarrow> \<exists>a. newURL w h (baseUrl w) = Some a"
proof (induction hs arbitrary: kept)
  case Nil
  then show ?case by simp
next
  case (Cons x xs)
  from Cons.prems(1) obtain k kept' where k: "keep_href w vis x = Some k"
    and r: "filter_hrefs w vis xs = Inr kept'" and e: "kept = (if k then x # kept' else kept')"
    by (auto split: option.splits sum.splits)
  show ?case
  proof (cases "k \<and> h = x")
    case True
    with k show ?thesis by (auto dest: keep_href_resolves)
  next
    case False
    with e Cons.prems(2) have "h \<in> set kept'" by (auto split: if_splits)
    with Cons.IH [OF r] show ?thesis by blast
  qed
qed

lemma resolve_all_total:
  "(\<And>h. h \<in> set hs \<Longrightarrow> \<exists>a. newURL w h (baseUrl w) = Some a) \<Longrightarrow> \<exists>found. resolve_all w hs = Inr found"
proof (induction hs)
  case Nil
  show ?case by simp
next
  case (Cons x xs)
  from Cons.prems [of x] obtain a where "newURL w x (baseUrl w) = Some a" by auto
  moreover from Cons.IH Cons.prems obtain found where "resolve_all w xs = Inr found" by auto
  ultimately show ?case by simp
qed

lemma audit_page_resolves:
  assumes "audit_page w url st = Inr (hrefs, st')"
  shows "\<exists>found. resolve_all w hrefs = Inr found"
proof -
  from assms obtain hs kept where k: "filter_hrefs w (visited st) hs = Inr kept"
    and h: "hrefs = new_Set kept"
    by (auto simp: audit_page_def Let_def split: page.splits sum.splits)
  show ?thesis
    by (rule resolve_all_total) (use filter_hrefs_resolve [OF k] h in \<open>simp add: set_new_Set\<close>)
qed

lemma lifo_simulates:
  "\<exists>n. \<forall>k. frontier_loop Lifo w (n + k) ((url, depth) # pending) st =
     and_then (spider w url depth st) (frontier_loop Lifo w k pending)"
  "resolve_all w hrefs = Inr found \<Longrightarrow>
   \<exists>n. \<forall>k. frontier_loop Lifo w (n + k) (map (\<lambda>a. (a, depth - 1)) found @ pending) st =
     and_then (each_href w hrefs depth st) (frontier_loop Lifo w k pending)"
proof (induction w url depth st and w hrefs depth st arbitrary: pending and found pending
    rule: spider_each_href.induct)
  case (1 w url depth st)
  show ?case
  proof (cases "url \<in> set (visited st) \<or> depth = 0")
    case True
    then have "\<forall>k. frontier_loop Lifo w (1 + k) ((url, depth) # pending) st =
        and_then (spider w url depth st) (frontier_loop Lifo w k pending)"
      by (simp add: spider.simps)
    then show ?thesis by blast
  next
    case False
    let ?s = "log_event (Add url) ((log_event (Call url depth) st)\<lparr>visited := set_add url (visited st)\<rparr>)"
    show ?thesis
    proof (cases "audit_page w url ?s")
      case (Inl p)
      obtain e s1 where p: "p = (e, s1)" by (cases p)
      from False Inl p
      have "\<forall>k. frontier_loop Lifo w (1 + k) ((url, depth) # pending) st =
          and_then (spider w url depth st) (frontier_loop Lifo w k pending)"
        by (simp add: spider.simps)
      then show ?thesis by blast
    next
      case (Inr p)
      obtain hrefs s1 where p: "p = (hrefs, s1)" by (cases p)
      note a = Inr [unfolded p]
      from audit_page_resolves [OF a] obtain found where f: "resolve_all w hrefs = Inr found"
        by blast
      from "1.IH" [OF False a refl f, of pending] obtain n where
        n: "\<And>k. frontier_loop Lifo w (n + k) (map (\<lambda>a. (a, depth - 1)) found @ pending) s1 =
          and_then (each_href w hrefs depth s1) (frontier_loop Lifo w k pending)"
        by blast
      from False a f n
      have "\<forall>k. frontier_loop Lifo w (Suc n + k) ((url, depth) # pending) st =
          and_then (spider w url depth st) (frontier_loop Lifo w k pending)"
        by (simp add: spider.simps)
      then show ?thesis by blast
    qed
  qed
next
  case (2 w depth st)
  then have "\<forall>k. frontier_loop Lifo w (0 + k) (map (\<lambda>a. (a, depth - 1)) found @ pending) st =
      and_then (each_href w [] depth st) (frontier_loop Lifo w k pending)"
    by simp
  then show ?case by blast
next
  case (3 w href hrefs depth st)
  from "3.prems" obtain a rest where a: "newURL w href (baseUrl w) = Some a"
    and r: "resolve_all w hrefs = Inr rest" and f: "found = a # rest"
    by (auto split: option.splits sum.splits)
  from "3.IH"(1) [OF a, of "map (\<lambda>a. (a, depth - 1)) rest @ pending"] obtain n1 where
    n1: "\<And>k. frontier_loop Lifo w (n1 + k)
        ((a, depth - 1) # map (\<lambda>a. (a, depth - 1)) rest @ pending) st =
        and_then (spider w a (depth - 1) st)
          (frontier_loop Lifo w k (map (\<lambda>a. (a, depth - 1)) rest @ pending))"
    by blast
  show ?case
  proof (cases "spider w a (depth - 1) st")
    case (Aborted e s1)
    with a f n1 have "\<forall>k. frontier_loop Lifo w (n1 + k) (map (\<lambda>a. (a, depth - 1)) found @ pending) st =
        and_then (each_href w (href # hrefs) depth st) (frontier_loop Lifo w k pending)"
      by simp
    then show ?thesis by blast
  next
    case (Done s1)
    from "3.IH"(2) [OF a Done r, of pending] obtain n2 where
      n2: "\<And>k. frontier_loop Lifo w (n2 + k) (map (\<lambda>a. (a, depth - 1)) rest @ pending) s1 =
          and_then (each_href w hrefs depth s1) (frontier_loop Lifo w k pending)"
      by blast
    have "frontier_loop Lifo w ((n1 + n2) + k) (map (\<lambda>a. (a, depth - 1)) found @ pending) st =
        and_then (each_href w (href # hrefs) depth st) (frontier_loop Lifo w k pending)" for k
      using n1 [of "n2 + k"] n2 [of k] a f Done by (simp add: add.assoc)
    then show ?thesis by blast
  qed
qed

text \<open>
  Claim C8, as stated, fails: on the example site \<open>spider\<close> audits \<open>/docs/intro\<close>,
  found on the page \<open>/docs\<close>, before \<open>/blog\<close>, found earlier on the root page; the
  queue of the specification audits \<open>/blog\<close> first.
\<close>

theorem audit_order_not_fifo:
  "visit_order (spider tree_site ''http://localhost:3000/'' 3 empty_state) =
     [''http://localhost:3000/'', ''http://localhost:3000/docs'',
      ''http://localhost:3000/docs/intro'', ''http://localhost:3000/blog''] \<and>
   map_option visit_order
     (frontier_loop Fifo tree_site 10 [(''http://localhost:3000/'', 3)] empty_state) =
     Some [''http://localhost:3000/'', ''http://localhost:3000/docs'',
           ''http://localhost:3000/blog'', ''http://localhost:3000/docs/intro'']"
  by (simp add: visit_order_def tree_site_def numeral_nat crawl_eval)

text \<open>
  Claim C8, amended. The pages are audited depth first: a run of \<open>spider\<close> is the
  run of the frontier loop whose frontier is a stack, where the links found on a page,
  in the order of their extraction, are taken before every task that was pending. The
  loop ends within a finite number of tasks, and its outcome (the \<open>visited\<close> set and
  the whole trace, so the order of the audits) is that of \<open>spider\<close>; the order is a
  function of the site and of the extraction order of its links.
\<close>

theorem audited_depth_first:
  "\<exists>n. frontier_loop Lifo w n [(url, depth)] st = Some (spider w url depth st)"
proof -
  from lifo_simulates(1) [of w url depth "[]" st] obtain n where
    "frontier_loop Lifo w (n + 0) [(url, depth)] st =
       and_then (spider w url depth st) (frontier_loop Lifo w 0 [])"
    by blast
  then have "frontier_loop Lifo w n [(url, depth)] st = Some (spider w url depth st)"
    by (cases "spider w url depth st") simp_all
  then show ?thesis by blast
qed

section \<open>Properties of the issue filing\<close>

lemma save_contact_report:
  "save_report ''/contact'' violations [] =
     [(''a11y-contact.md'', formatViolationsToMarkdown ''/contact'' violations)]"
  by (simp add: save_report_def report_file_def safeName_def)

lemma backquote_in_report:
  "CHR 0x60 \<in> set (formatViolationsToMarkdown url violations)"
  by (simp add: formatViolationsToMarkdown_def header_def)

text \<open>
  Claim C4. The report of the page \<open>/contact\<close> is the file \<open>a11y-contact.md\<close>, and
  from that name the loop derives the title
  \<open>Accessibility issues on /a11y-contact\<close>: it removes \<open>.md\<close> and keeps the prefix
  \<open>a11y-\<close>. Whatever the violations of the page and whatever the shell, the
  command line and the tracker do, a run of the loop over the reports of a site whose
  only violating page is \<open>/contact\<close> starts with the listing for that title, hands
  to the shell no other command than that listing and the creation of an issue with
  that title, and prints no line about another page than \<open>a11y-contact\<close>; the line
  of the creation holds the body of the report as it is, the backquotes of its heading
  included. No command of the loop carries the title
  \<open>Accessibility issues on /contact\<close> of the claim.
\<close>

theorem contact_issue_title:
  "map fst (save_report ''/contact'' violations []) = [''a11y-contact.md''] \<and>
   issue_title ''a11y-contact.md'' = ''Accessibility issues on /a11y-contact'' \<and>
   take 1 (ran (filing_of (file_issues exec (save_report ''/contact'' violations [])
       \<lparr>tracker = e, console = [], ran = []\<rparr>))) =
     [list_command ''Accessibility issues on /a11y-contact''] \<and>
   set (ran (filing_of (file_issues exec (save_report ''/contact'' violations [])
       \<lparr>tracker = e, console = [], ran = []\<rparr>))) \<subseteq>
     {list_command ''Accessibility issues on /a11y-contact'',
      create_command ''Accessibility issues on /a11y-contact''
        (formatViolationsToMarkdown ''/contact'' violations)} \<and>
   set (console (filing_of (file_issues exec (save_report ''/contact'' violations [])
       \<lparr>tracker = e, console = [], ran = []\<rparr>))) \<subseteq>
     {AlreadyExists ''a11y-contact'', Created ''a11y-contact'', FailedToCreate ''a11y-contact''} \<and>
   CHR 0x60 \<in> set (create_command ''Accessibility issues on /a11y-contact''
     (formatViolationsToMarkdown ''/contact'' violations))"
proof -
  have p: "page_name ''a11y-contact.md'' = ''a11y-contact''"
    by (simp add: page_name_def)
  have b: "CHR 0x60 \<in> set (create_command ''Accessibility issues on /a11y-contact''
      (formatViolationsToMarkdown ''/contact'' violations))"
    using backquote_in_report [of "''/contact''" violations]
    by (simp add: create_command_def)
  show ?thesis
    using b
    by (auto simp: save_contact_report issue_title_def p Let_def
        split: prod.splits option.splits)
qed

end
